theory Spec2Isabelle
  imports Main "HOL-Library.Sublist" "HOL-Library.AList"
begin

section \<open>Errors and values shared by both modules\<close>

text \<open>
  The exceptions the two source files can raise or let through. \<open>ValueError\<close> carries
  its formatted message, \<open>AttributeError\<close> the name of the attribute that could not be
  read or written, \<open>GitCommandError\<close> the exit status of the external command
  (\<open>err.status\<close> in \<open>tag.py\<close>).
\<close>

datatype error =
    ValueError string
  | AttributeError string
  | GitCommandError int

section \<open>git/refs/tag.py\<close>

subsection \<open>The object graph\<close>

text \<open>
  \<open>TagReference.commit\<close> and \<open>TagReference.tag\<close> only read two attributes of the
  objects they walk over: \<open>obj.type\<close> (a string) and, for an object whose type is
  \<open>"tag"\<close>, \<open>obj.object\<close> (the next object). Python objects are held by reference,
  so the graph is a store from addresses to such objects; nothing in \<open>tag.py\<close>
  prevents the links from forming a cycle. \<open>hexsha\<close> is the identifier of the object
  in the repository. An object without an \<open>object\<close> attribute has \<open>None\<close> there,
  and reading it raises \<open>AttributeError\<close>.
\<close>

type_synonym addr = nat

record Object =
  hexsha :: string
  type :: string
  object :: "addr option"

type_synonym heap = "addr \<Rightarrow> Object"

text \<open>
  A tag reference, as the constructor call at the end of \<open>create\<close> builds it:
  \<open>TagReference(repo, path)\<close>.
\<close>

record TagReference =
  path :: string

subsection \<open>The read-only \<open>object\<close> property\<close>

text \<open>
  Python's built-in \<open>property(fget, fset)\<close>: a data descriptor. Reading the attribute
  calls \<open>fget\<close>, assigning to it calls \<open>fset\<close>; when the accessor is missing the
  access raises \<open>AttributeError\<close> and the instance is left as it was. The instance
  (the state an assignment would change) is passed explicitly and returned.
\<close>

record ('r, 'v) property =
  fget :: "('r \<Rightarrow> 'v) option"
  fset :: "('r \<Rightarrow> 'v \<Rightarrow> 'r) option"

definition property_get :: "('r, 'v) property \<Rightarrow> string \<Rightarrow> 'r \<Rightarrow> error + 'v" where
  "property_get p name self =
     (case fget p of
        None \<Rightarrow> Inl (AttributeError name)
      | Some getter \<Rightarrow> Inr (getter self))"

definition property_set :: "('r, 'v) property \<Rightarrow> string \<Rightarrow> 'r \<Rightarrow> 'v \<Rightarrow> (error + unit) \<times> 'r" where
  "property_set p name self v =
     (case fset p of
        None \<Rightarrow> (Inl (AttributeError name), self)
      | Some setter \<Rightarrow> (Inr (), setter self v))"

text \<open>
  \<open>object = property(Reference._get_object)\<close>. The base class \<open>Reference\<close> is not part
  of the sources at hand, so its getter \<open>_get_object\<close> is a parameter: any function
  from the reference to the address of the object it points to.
\<close>

definition TagReference_object :: "('r \<Rightarrow> addr) \<Rightarrow> ('r, addr) property" where
  "TagReference_object Reference_get_object =
     \<lparr>fget = Some Reference_get_object, fset = None\<rparr>"

subsection \<open>\<open>TagReference.commit\<close>\<close>

text \<open>
  The message of the \<open>ValueError\<close>: the format string of the source with \<open>str(self)\<close>
  and \<open>obj.type\<close> substituted.
\<close>

definition commit_error :: "string \<Rightarrow> string \<Rightarrow> error" where
  "commit_error self_str obj_type =
     ValueError (''Cannot resolve commit as tag '' @ self_str @ '' points to a '' @ obj_type
                 @ '' object - '' @ ''use the `.object` property instead to access it'')"

text \<open>
  The \<open>while\<close> loop of \<open>commit\<close>. It has no bound of its own, so it is a partial
  function: \<open>None\<close> is the loop that never returns, \<open>Some (Inl e)\<close> a raised
  exception, \<open>Some (Inr a)\<close> the returned object. \<open>self_str\<close> is \<open>str(self)\<close>.
\<close>

partial_function (option) commit_loop :: "string \<Rightarrow> heap \<Rightarrow> addr \<Rightarrow> (error + addr) option" where
  "commit_loop self_str h obj =
     (if type (h obj) \<noteq> ''commit'' then
        (if type (h obj) = ''tag'' then
           (case object (h obj) of
              None \<Rightarrow> Some (Inl (AttributeError ''object''))
            | Some nxt \<Rightarrow> commit_loop self_str h nxt)
         else Some (Inl (commit_error self_str (type (h obj)))))
      else Some (Inr obj))"

text \<open>
  \<open>commit\<close>: \<open>obj = self.object\<close>, then the loop. \<open>str_of\<close> is \<open>Reference.__str__\<close>,
  a parameter like the getter.
\<close>

definition commit :: "('r \<Rightarrow> addr) \<Rightarrow> ('r \<Rightarrow> string) \<Rightarrow> heap \<Rightarrow> 'r \<Rightarrow> (error + addr) option" where
  "commit Reference_get_object str_of h self =
     (case property_get (TagReference_object Reference_get_object) ''object'' self of
        Inl e \<Rightarrow> Some (Inl e)
      | Inr obj \<Rightarrow> commit_loop (str_of self) h obj)"

subsection \<open>\<open>TagReference.tag\<close>\<close>

definition tag :: "('r \<Rightarrow> addr) \<Rightarrow> heap \<Rightarrow> 'r \<Rightarrow> error + addr option" where
  "tag Reference_get_object h self =
     (case property_get (TagReference_object Reference_get_object) ''object'' self of
        Inl e \<Rightarrow> Inl e
      | Inr obj \<Rightarrow> if type (h obj) = ''tag'' then Inr (Some obj) else Inr None)"

text \<open>
  What the claims call a target chain: \<open>chain h a ts z\<close> holds when, starting at \<open>a\<close>,
  every object before \<open>z\<close> has type \<open>"tag"\<close> and its \<open>object\<close> link is the next
  element; \<open>ts\<close> lists the objects reached after \<open>a\<close>, the last of them being \<open>z\<close>.
\<close>

fun chain :: "heap \<Rightarrow> addr \<Rightarrow> addr list \<Rightarrow> addr \<Rightarrow> bool" where
  "chain h a [] z = (a = z)"
| "chain h a (t # ts) z = (type (h a) = ''tag'' \<and> object (h a) = Some t \<and> chain h t ts z)"

subsection \<open>The external backend\<close>

text \<open>
  \<open>repo.git.tag(...)\<close> and \<open>repo.git.push(...)\<close> run the external tool. A call is its
  subcommand, its positional arguments and its keyword arguments (a dictionary, kept as
  an association list in insertion order). The backend is a parameter: it answers a call,
  given the calls made before it, with the command's output or with an exception. The
  state threaded through \<open>create\<close> and \<open>delete\<close> is the list of calls made so far.
\<close>

datatype kwval = KStr string | KBool bool

type_synonym kwargs = "(string \<times> kwval) list"

type_synonym call = "string \<times> string list \<times> kwargs"

type_synonym backend = "call list \<Rightarrow> call \<Rightarrow> error + string"

definition git :: "backend \<Rightarrow> call \<Rightarrow> call list \<Rightarrow> (error + string) \<times> call list" where
  "git b c log = (b log c, log @ [c])"

text \<open>What \<open>create\<close> and \<open>delete\<close> return: \<open>False\<close>, \<open>None\<close> or a new reference.\<close>

datatype retval = PyFalse | PyNone | PyTagReference TagReference

text \<open>Python's truth value of an optional string: \<open>None\<close> and \<open>""\<close> are false.\<close>

definition truthy :: "string option \<Rightarrow> bool" where
  "truthy v = (case v of None \<Rightarrow> False | Some s \<Rightarrow> s \<noteq> [])"

definition common_path_default :: string where
  "common_path_default = ''refs/tags''"

subsection \<open>\<open>TagReference.create\<close>\<close>

definition create ::
  "backend \<Rightarrow> string \<Rightarrow> bool \<Rightarrow> string \<Rightarrow> string option \<Rightarrow> bool \<Rightarrow> kwargs \<Rightarrow> call list
   \<Rightarrow> (error + retval) \<times> call list" where
  "create b tag_name push ref message force kwargs log =
     (let kwargs1 = (case message of
                       None \<Rightarrow> kwargs
                     | Some m \<Rightarrow> if m \<noteq> [] then AList.update ''m'' (KStr m) kwargs else kwargs);
          kwargs2 = (if force then AList.update ''f'' (KBool True) kwargs1 else kwargs1)
      in case git b (''tag'', [tag_name, ref], kwargs2) log of
           (Inl e, log1) \<Rightarrow> (Inl e, log1)
         | (Inr out, log1) \<Rightarrow>
             if push then
               (let kwargs3 = (if truthy message then AList.delete ''m'' kwargs2 else kwargs2)
                in case git b (''push'', [''origin'', tag_name], kwargs3) log1 of
                     (Inl (GitCommandError status), log2) \<Rightarrow>
                        (if status = 1 then (Inr PyFalse, log2) else (Inr PyFalse, log2))
                   | (Inl e, log2) \<Rightarrow> (Inl e, log2)
                   | (Inr out2, log2) \<Rightarrow>
                        (Inr (PyTagReference \<lparr>path = common_path_default @ ''/'' @ tag_name\<rparr>), log2))
             else (Inr (PyTagReference \<lparr>path = common_path_default @ ''/'' @ tag_name\<rparr>), log1))"

subsection \<open>\<open>TagReference.delete\<close>\<close>

text \<open>The \<open>for tag in tags\<close> loop of \<open>delete\<close>; falling off its end returns \<open>None\<close>.\<close>

fun delete_push :: "backend \<Rightarrow> kwargs \<Rightarrow> string list \<Rightarrow> call list \<Rightarrow> (error + retval) \<times> call list" where
  "delete_push b kwargs [] log = (Inr PyNone, log)"
| "delete_push b kwargs (t # ts) log =
     (case git b (''push'', [''origin'', t], kwargs) log of
        (Inl (GitCommandError status), log1) \<Rightarrow>
           (if status = 1 then (Inr PyFalse, log1) else (Inr PyFalse, log1))
      | (Inl e, log1) \<Rightarrow> (Inl e, log1)
      | (Inr out, log1) \<Rightarrow> delete_push b kwargs ts log1)"

definition delete ::
  "backend \<Rightarrow> bool \<Rightarrow> string list \<Rightarrow> kwargs \<Rightarrow> call list \<Rightarrow> (error + retval) \<times> call list" where
  "delete b push tags kwargs log =
     (case git b (''tag'', ''-d'' # tags, []) log of
        (Inl e, log1) \<Rightarrow> (Inl e, log1)
      | (Inr out, log1) \<Rightarrow>
          if push then delete_push b (AList.update ''d'' (KBool True) kwargs) tags log1
          else (Inr PyNone, log1))"

text \<open>
  For stating what \<open>delete\<close> does: the push call for one tag, and "every push for the
  tags \<open>ts\<close>, issued in order after the calls \<open>log\<close>, succeeds".
\<close>

definition push_call :: "kwargs \<Rightarrow> string \<Rightarrow> call" where
  "push_call kwargs t = (''push'', [''origin'', t], kwargs)"

fun pushes_succeed :: "backend \<Rightarrow> kwargs \<Rightarrow> call list \<Rightarrow> string list \<Rightarrow> bool" where
  "pushes_succeed b kwargs log [] = True"
| "pushes_succeed b kwargs log (t # ts) =
     ((case b log (push_call kwargs t) of Inl e \<Rightarrow> False | Inr out \<Rightarrow> True)
      \<and> pushes_succeed b kwargs (log @ [push_call kwargs t]) ts)"

section \<open>lib/git/diff.py\<close>

subsection \<open>Regular expressions as Python's \<open>re\<close> module matches them\<close>

text \<open>
  The character classes of the pattern: \<open>\S\<close>, \<open>\d\<close>, \<open>.\<close> (no \<open>DOTALL\<close>: anything but
  a newline) and \<open>[0-9A-Fa-f]\<close>. The pattern is a \<open>str\<close> pattern and the text a \<open>str\<close>:
  a character is a code point, here one below 256. In that range the white space that
  \<open>\S\<close> excludes is U+0009 to U+000D, U+001C to U+001F, U+0020, U+0085 and U+00A0, and
  the decimal digits of \<open>\d\<close> are \<open>0\<close> to \<open>9\<close>.
\<close>

datatype cls = NonSpace | Digit | AnyButNewline | Hex

fun in_cls :: "cls \<Rightarrow> char \<Rightarrow> bool" where
  "in_cls NonSpace c =
     (c \<notin> set [CHR 0x09, CHR 0x0A, CHR 0x0B, CHR 0x0C, CHR 0x0D,
                 CHR 0x1C, CHR 0x1D, CHR 0x1E, CHR 0x1F, CHR 0x20, CHR 0x85, CHR 0xA0])"
| "in_cls Digit c = (c \<in> set ''0123456789'')"
| "in_cls AnyButNewline c = (c \<noteq> CHR 0x0A)"
| "in_cls Hex c = (c \<in> set ''0123456789ABCDEFabcdef'')"

text \<open>
  The constructs the pattern uses: a literal, a greedy \<open>+\<close> over a character class,
  \<open>^\<close> and \<open>$\<close> (under \<open>re.MULTILINE\<close>), concatenation, alternation \<open>a|b\<close>, a greedy
  optional \<open>(?:a)?\<close> and a named group \<open>(?P<name>a)\<close>.
\<close>

datatype re =
    Lit string
  | OneOrMore cls
  | Bol
  | Eol
  | Cat re re
  | Alt re re
  | Opt re
  | Group string re

fun cat :: "re list \<Rightarrow> re" where
  "cat [] = Lit []"
| "cat [r] = r"
| "cat (r # rs) = Cat r (cat rs)"

text \<open>
  A position of the matcher: whether it is at the start of a line (the start of the
  string or just after a newline), the text from the position on, and the groups
  captured so far.
\<close>

record match_state =
  bol :: bool
  rest :: string
  groups :: "string \<rightharpoonup> string"

definition advance :: "nat \<Rightarrow> match_state \<Rightarrow> match_state" where
  "advance n st =
     st\<lparr>bol := (if n = 0 then bol st else last (take n (rest st)) = CHR 0x0A),
        rest := drop n (rest st)\<rparr>"

text \<open>
  The backtracking matcher: \<open>matches r st\<close> lists every way \<open>r\<close> can match at \<open>st\<close>,
  as the position reached, in the order in which backtracking tries them (a greedy
  \<open>+\<close> tries the longest run first, a greedy \<open>?\<close> tries its body first, \<open>a|b\<close> tries
  \<open>a\<close> first). The match \<open>re\<close> returns is the first of the list; the groups of an
  attempt that was given up are those of the position it started from.
\<close>

fun matches :: "re \<Rightarrow> match_state \<Rightarrow> match_state list" where
  "matches (Lit l) st = (if prefix l (rest st) then [advance (length l) st] else [])"
| "matches (OneOrMore c) st =
     map (\<lambda>n. advance n st) (rev [1..<Suc (length (takeWhile (in_cls c) (rest st)))])"
| "matches Bol st = (if bol st then [st] else [])"
| "matches Eol st = (case rest st of [] \<Rightarrow> [st] | c # cs \<Rightarrow> if c = CHR 0x0A then [st] else [])"
| "matches (Cat r1 r2) st = concat (map (matches r2) (matches r1 st))"
| "matches (Alt r1 r2) st = matches r1 st @ matches r2 st"
| "matches (Opt r) st = matches r st @ [st]"
| "matches (Group name r) st =
     map (\<lambda>st'. st'\<lparr>groups := (groups st')(name \<mapsto>
                      take (length (rest st) - length (rest st')) (rest st))\<rparr>)
         (matches r st)"

subsection \<open>The header pattern\<close>

text \<open>
  \<open>diff_header\<close>, the pattern compiled with \<open>re.VERBOSE | re.MULTILINE\<close>: white space
  outside a class and the comment line \<open>#^diff[ ]--git\<close> are not part of it.
\<close>

definition end_of_line :: re where
  "end_of_line = Alt (Lit [CHR 0x0A]) Eol"

definition diff_header_re :: re where
  "diff_header_re = cat
     [Lit '' a/'', Group ''a_path'' (OneOrMore NonSpace),
      Lit '' b/'', Group ''b_path'' (OneOrMore NonSpace), Lit [CHR 0x0A],
      Opt (cat [Bol, Lit ''similarity index '', Group ''similarity_index'' (OneOrMore Digit),
                  Lit [CHR ''%'', CHR 0x0A],
                Bol, Lit ''rename from '', Group ''rename_from'' (OneOrMore NonSpace),
                  Lit [CHR 0x0A],
                Bol, Lit ''rename to '', Group ''rename_to'' (OneOrMore NonSpace), end_of_line]),
      Opt (cat [Bol, Lit ''old mode '', Group ''old_mode'' (OneOrMore Digit), Lit [CHR 0x0A],
                Bol, Lit ''new mode '', Group ''new_mode'' (OneOrMore Digit), end_of_line]),
      Opt (cat [Bol, Lit ''new file mode '', Group ''new_file_mode'' (OneOrMore AnyButNewline),
                  end_of_line]),
      Opt (cat [Bol, Lit ''deleted file mode '',
                  Group ''deleted_file_mode'' (OneOrMore AnyButNewline), end_of_line]),
      Opt (cat [Bol, Lit ''index '', Group ''a_commit'' (OneOrMore Hex),
                  Lit ''..'', Group ''b_commit'' (OneOrMore Hex), Opt (Lit '' ''),
                  Opt (Group ''b_mode'' (OneOrMore AnyButNewline)), end_of_line])]"

text \<open>\<open>diff_header(diff)\<close>: the match at the start of the segment, or \<open>None\<close>.\<close>

definition diff_header :: "string \<Rightarrow> match_state option" where
  "diff_header s =
     (case matches diff_header_re \<lparr>bol = True, rest = s, groups = Map.empty\<rparr> of
        [] \<Rightarrow> None
      | m # ms \<Rightarrow> Some m)"

subsection \<open>The records and the loop\<close>

text \<open>
  The arguments of the constructor call \<open>Diff(repo, a_path, b_path, a_commit, b_commit,
  a_mode, b_mode, new_file, deleted_file, diff)\<close>; a group that did not take part in the
  match is \<open>None\<close>.
\<close>

record Diff =
  a_path :: "string option"
  b_path :: "string option"
  a_commit :: "string option"
  b_commit :: "string option"
  a_mode :: "string option"
  b_mode :: "string option"
  new_file :: bool
  deleted_file :: bool
  diff :: string

text \<open>Python's \<open>x or y\<close> on optional strings.\<close>

definition py_or :: "string option \<Rightarrow> string option \<Rightarrow> string option" where
  "py_or x y = (if truthy x then x else y)"

text \<open>The body of the loop, once the header has matched.\<close>

definition make_diff :: "match_state \<Rightarrow> Diff" where
  "make_diff header =
     (let g = groups header;
          old_mode = g ''old_mode''; new_mode = g ''new_mode'';
          new_file_mode = g ''new_file_mode''; deleted_file_mode = g ''deleted_file_mode''
      in \<lparr>a_path = g ''a_path'', b_path = g ''b_path'',
          a_commit = g ''a_commit'', b_commit = g ''b_commit'',
          a_mode = py_or old_mode deleted_file_mode,
          b_mode = py_or (py_or new_mode new_file_mode) (g ''b_mode''),
          new_file = truthy new_file_mode, deleted_file = truthy deleted_file_mode,
          diff = rest header\<rparr>)"

text \<open>
  The \<open>for\<close> loop over the segments. When the header does not match, \<open>diff_header\<close>
  returns \<open>None\<close> and \<open>header.groups()\<close> raises \<open>AttributeError\<close>, which nothing
  catches. \<open>diffs\<close> is the list the loop appends to.
\<close>

fun diff_loop :: "string list \<Rightarrow> Diff list \<Rightarrow> error + Diff list" where
  "diff_loop [] diffs = Inr diffs"
| "diff_loop (d # ds) diffs =
     (case diff_header d of
        None \<Rightarrow> Inl (AttributeError ''groups'')
      | Some header \<Rightarrow> diff_loop ds (diffs @ [make_diff header]))"

text \<open>
  Python's \<open>s.split(sep)\<close>: the pieces between the occurrences of \<open>sep\<close>, found from
  left to right without overlap; an empty separator raises \<open>ValueError\<close>.
\<close>

function pieces :: "string \<Rightarrow> string \<Rightarrow> string list" where
  "pieces sep [] = [[]]"
| "pieces sep (c # cs) =
     (if sep \<noteq> [] \<and> prefix sep (c # cs) then [] # pieces sep (drop (length sep) (c # cs))
      else (case pieces sep cs of [] \<Rightarrow> [[c]] | p # ps \<Rightarrow> (c # p) # ps))"
  by pat_completeness auto
termination
  by (relation "measure (\<lambda>(sep, s). length s)") auto

definition split :: "string \<Rightarrow> string \<Rightarrow> error + string list" where
  "split s sep = (if sep = [] then Inl (ValueError ''empty separator'') else Inr (pieces sep s))"

text \<open>
  The loop of the source with its iterable, \<open>('\n' + text).split('\ndiff --git')[1:]\<close>.
  \<open>diffs\<close> is the list as it is when the loop starts.
\<close>

definition marker :: string where
  "marker = CHR 0x0A # ''diff --git''"

definition list_from_string :: "Diff list \<Rightarrow> string \<Rightarrow> error + Diff list" where
  "list_from_string diffs text =
     (case split (CHR 0x0A # text) marker of
        Inl e \<Rightarrow> Inl e
      | Inr segments \<Rightarrow> diff_loop (tl segments) diffs)"

section \<open>Notions and inputs used to state the properties\<close>

subsection \<open>Object graphs\<close>

text \<open>
  A reference whose target is \<open>Tag(Tag(Commit))\<close>: object 0 is a tag object pointing to
  object 1, a tag object pointing to object 2, a commit.
\<close>

definition tag_tag_commit :: heap where
  "tag_tag_commit a =
     (if a = 0 then \<lparr>hexsha = ''aa01'', type = ''tag'', object = Some 1\<rparr>
      else if a = 1 then \<lparr>hexsha = ''bb02'', type = ''tag'', object = Some 2\<rparr>
      else \<lparr>hexsha = ''cc03'', type = ''commit'', object = None\<rparr>)"

text \<open>A tag object (object 0) pointing to a tree (object 1).\<close>

definition tag_to_tree :: heap where
  "tag_to_tree a =
     (if a = 0 then \<lparr>hexsha = ''aa01'', type = ''tag'', object = Some 1\<rparr>
      else \<lparr>hexsha = ''4b825dc6'', type = ''tree'', object = None\<rparr>)"

text \<open>A graph in which every object is a tree with the given identifier.\<close>

definition tree_object :: "string \<Rightarrow> heap" where
  "tree_object sha a = \<lparr>hexsha = sha, type = ''tree'', object = None\<rparr>"

subsection \<open>Backends\<close>

text \<open>
  A backend on which every \<open>push\<close> fails with the given exit status and every other
  command succeeds, and one on which only the push of the tag \<open>t\<close> fails.
\<close>

definition failing_push :: "int \<Rightarrow> backend" where
  "failing_push status log c = (if fst c = ''push'' then Inl (GitCommandError status) else Inr [])"

definition failing_push_of :: "string \<Rightarrow> int \<Rightarrow> backend" where
  "failing_push_of t status log c =
     (if fst c = ''push'' \<and> fst (snd c) = [''origin'', t] then Inl (GitCommandError status) else Inr [])"

subsection \<open>The matcher\<close>

text \<open>
  \<open>consuming r\<close>: every match of \<open>r\<close> takes at least one character.
  \<open>groups_consume r\<close>: every named group of \<open>r\<close> wraps a consuming expression.
  \<open>never_fails r\<close>: \<open>r\<close> is built from optional parts only.
\<close>

fun consuming :: "re \<Rightarrow> bool" where
  "consuming (Lit l) = (l \<noteq> [])"
| "consuming (OneOrMore c) = True"
| "consuming Bol = False"
| "consuming Eol = False"
| "consuming (Cat r1 r2) = (consuming r1 \<or> consuming r2)"
| "consuming (Alt r1 r2) = (consuming r1 \<and> consuming r2)"
| "consuming (Opt r) = False"
| "consuming (Group name r) = consuming r"

fun groups_consume :: "re \<Rightarrow> bool" where
  "groups_consume (Cat r1 r2) = (groups_consume r1 \<and> groups_consume r2)"
| "groups_consume (Alt r1 r2) = (groups_consume r1 \<and> groups_consume r2)"
| "groups_consume (Opt r) = groups_consume r"
| "groups_consume (Group name r) = (consuming r \<and> groups_consume r)"
| "groups_consume r = True"

fun never_fails :: "re \<Rightarrow> bool" where
  "never_fails (Opt r) = True"
| "never_fails (Cat r1 r2) = (never_fails r1 \<and> never_fails r2)"
| "never_fails r = False"

subsection \<open>Segments, markers and the path-pair line\<close>

text \<open>
  The segments the loop runs over; the number of occurrences of \<open>diff --git\<close> at the
  start of a line of a text (\<open>at_line_start\<close> says whether the text itself starts a
  line); and a segment that starts with the mandatory line \<open> a/<path> b/<path>\<close>,
  both paths non-empty and free of white space, ended by a newline.
\<close>

definition segments :: "string \<Rightarrow> string list" where
  "segments text = tl (pieces marker (CHR 0x0A # text))"

fun marker_count :: "bool \<Rightarrow> string \<Rightarrow> nat" where
  "marker_count at_line_start [] = 0"
| "marker_count at_line_start (c # cs) =
     (if at_line_start \<and> prefix ''diff --git'' (c # cs) then 1 else 0)
     + marker_count (c = CHR 0x0A) cs"

definition path_pair_line :: "string \<Rightarrow> bool" where
  "path_pair_line seg =
     (\<exists>p q r. seg = '' a/'' @ p @ '' b/'' @ q @ [CHR 0x0A] @ r \<and> p \<noteq> [] \<and> q \<noteq> []
        \<and> list_all (in_cls NonSpace) p \<and> list_all (in_cls NonSpace) q)"

subsection \<open>Diff texts\<close>



definition two_headers_text :: string where
  "two_headers_text = ''diff --git a/x b/y'' @ [CHR 0x0A] @ ''diff --git a/p b/q'' @ [CHR 0x0A]"

definition header_then_mode_text :: string where
  "header_then_mode_text = ''diff --git a/x b/y'' @ [CHR 0x0A] @ ''new file mode 100644''
                @ [CHR 0x0A] @ ''diff --git a/p b/q'' @ [CHR 0x0A]"

definition separator_in_path_text :: string where
  "separator_in_path_text = ''diff --git a/x'' @ [CHR 0x1C] @ ''y b/z'' @ [CHR 0x0A]"

definition two_segments_text :: string where
  "two_segments_text = ''junk'' @ [CHR 0x0A] @ ''diff --git a/x b/y'' @ [CHR 0x0A]
                @ ''index 1..2'' @ [CHR 0x0A] @ ''diff --git a/p b/q'' @ [CHR 0x0A] @ ''body''"

definition bad_first_text :: string where
  "bad_first_text = ''diff --git junk'' @ [CHR 0x0A]"

definition bad_second_text :: string where
  "bad_second_text = ''diff --git a/x b/x'' @ [CHR 0x0A] @ ''index abc..def'' @ [CHR 0x0A]
                @ ''diff --git junk'' @ [CHR 0x0A]"

section \<open>Properties of git/refs/tag.py\<close>

subsection \<open>The loop of \<open>commit\<close>\<close>

lemma commit_loop_chain:
  "chain h a ts z \<Longrightarrow> commit_loop s h a = commit_loop s h z"
proof (induction ts arbitrary: a)
  case Nil
  then show ?case by simp
next
  case (Cons t ts)
  then have "type (h a) = ''tag''" and "object (h a) = Some t" and "chain h t ts z"
    by simp_all
  then have "commit_loop s h a = commit_loop s h t"
    by (subst commit_loop.simps) simp
  with Cons.IH[OF \<open>chain h t ts z\<close>] show ?case by simp
qed

lemma commit_loop_commit:
  "type (h z) = ''commit'' \<Longrightarrow> commit_loop s h z = Some (Inr z)"
  by (subst commit_loop.simps) simp

lemma commit_loop_other:
  "type (h z) \<noteq> ''commit'' \<Longrightarrow> type (h z) \<noteq> ''tag'' \<Longrightarrow>
   commit_loop s h z = Some (Inl (commit_error s (type (h z))))"
  by (subst commit_loop.simps) simp

lemma commit_unfold:
  "commit g str_of h self = commit_loop (str_of self) h (g self)"
  by (simp add: commit_def property_get_def TagReference_object_def)

text \<open>
  C1. When the target of the reference starts a finite chain of zero or more tag objects
  that ends in a commit object, \<open>commit\<close> returns (it does not loop and does not raise)
  and its value is that terminal commit. The instance that follows is the reference whose target is
  \<open>Tag(Tag(Commit))\<close>.
\<close>

theorem commit_follows_tag_chain:
  assumes "chain h (g self) ts c" and "type (h c) = ''commit''"
  shows "commit g str_of h self = Some (Inr c)"
  using commit_loop_chain[of h "g self" ts c "str_of self"]
        commit_loop_commit[of h c "str_of self"] assms
  by (simp add: commit_unfold)

theorem commit_follows_tag_chain_witness:
  "chain tag_tag_commit 0 [1, 2] 2 \<and> type (tag_tag_commit 2) = ''commit'' \<and>
   commit (\<lambda>r. 0) path tag_tag_commit \<lparr>path = ''refs/tags/v1''\<rparr> = Some (Inr 2)"
proof -
  have c: "chain tag_tag_commit ((\<lambda>r::TagReference. 0) \<lparr>path = ''refs/tags/v1''\<rparr>) [1, 2] 2"
    by (simp add: tag_tag_commit_def)
  have t: "type (tag_tag_commit 2) = ''commit''"
    by (simp add: tag_tag_commit_def)
  from commit_follows_tag_chain[of tag_tag_commit "\<lambda>r. 0" "\<lparr>path = ''refs/tags/v1''\<rparr>"
         "[1, 2]" 2 path] c t
  show ?thesis by simp
qed

text \<open>
  C5, as the code has it. When the chain of tag objects reaches an object that is neither
  a commit nor a tag, \<open>commit\<close> returns no value: it raises \<open>ValueError\<close>. The message
  names the tag reference (\<open>str(self)\<close>) and the kind of the offending object, and
  points the caller to the \<open>.object\<close> property; the identifier of the offending object
  is not part of it.
\<close>

theorem commit_rejects_other_objects:
  assumes "chain h (g self) ts z" and "type (h z) \<noteq> ''commit''" and "type (h z) \<noteq> ''tag''"
  shows "commit g str_of h self =
           Some (Inl (ValueError (''Cannot resolve commit as tag '' @ str_of self
                        @ '' points to a '' @ type (h z)
                        @ '' object - use the `.object` property instead to access it'')))"
  using commit_loop_chain[of h "g self" ts z "str_of self"]
        commit_loop_other[of h z "str_of self"] assms
  by (simp add: commit_unfold commit_error_def)

theorem commit_rejects_other_objects_witness:
  "chain tag_to_tree 0 [1] 1 \<and> type (tag_to_tree 1) \<noteq> ''commit'' \<and>
   type (tag_to_tree 1) \<noteq> ''tag'' \<and>
   commit (\<lambda>r. 0) path tag_to_tree \<lparr>path = ''refs/tags/v1''\<rparr> =
     Some (Inl (ValueError
       ''Cannot resolve commit as tag refs/tags/v1 points to a tree object - use the `.object` property instead to access it''))"
proof -
  have c: "chain tag_to_tree ((\<lambda>r::TagReference. 0) \<lparr>path = ''refs/tags/v1''\<rparr>) [1] 1"
    by (simp add: tag_to_tree_def)
  have t: "type (tag_to_tree 1) \<noteq> ''commit''" "type (tag_to_tree 1) \<noteq> ''tag''"
    by (simp_all add: tag_to_tree_def)
  have ty: "type (tag_to_tree 1) = ''tree''" by (simp add: tag_to_tree_def)
  from commit_rejects_other_objects[of tag_to_tree "\<lambda>r. 0" "\<lparr>path = ''refs/tags/v1''\<rparr>"
         "[1]" 1 path] c t ty
  show ?thesis by simp
qed

text \<open>
  C5 as stated fails: for the reference \<open>refs/tags/v1\<close> pointing at the tree
  \<open>4b825dc6\<close> the error is the message below, in which the identifier \<open>4b825dc6\<close> does
  not occur; a tree with another identifier gives the very same error.
\<close>

theorem commit_error_lacks_object_id:
  "commit (\<lambda>r. 0) path (tree_object ''4b825dc6'') \<lparr>path = ''refs/tags/v1''\<rparr> =
     Some (Inl (ValueError
       ''Cannot resolve commit as tag refs/tags/v1 points to a tree object - use the `.object` property instead to access it''))
   \<and> hexsha (tree_object ''4b825dc6'' 0) = ''4b825dc6''
   \<and> \<not> sublist ''4b825dc6''
       ''Cannot resolve commit as tag refs/tags/v1 points to a tree object - use the `.object` property instead to access it''
   \<and> commit (\<lambda>r. 0) path (tree_object ''4b825dc6'') \<lparr>path = ''refs/tags/v1''\<rparr>
     = commit (\<lambda>r. 0) path (tree_object ''0fe1c2a9'') \<lparr>path = ''refs/tags/v1''\<rparr>"
proof -
  have l: "\<And>sha. commit (\<lambda>r. 0) path (tree_object sha) \<lparr>path = ''refs/tags/v1''\<rparr> =
     Some (Inl (ValueError
       ''Cannot resolve commit as tag refs/tags/v1 points to a tree object - use the `.object` property instead to access it''))"
    using commit_loop_other[of "tree_object _" 0 "''refs/tags/v1''"]
    by (simp add: commit_unfold tree_object_def commit_error_def)
  have s: "\<not> sublist ''4b825dc6''
       ''Cannot resolve commit as tag refs/tags/v1 points to a tree object - use the `.object` property instead to access it''"
    by code_simp
  show ?thesis using l s by (simp add: tree_object_def)
qed

text \<open>
  C6. \<open>tag\<close> returns the starting target itself when its type is \<open>"tag"\<close> (no link is
  followed), and \<open>None\<close>, not an error, when the starting target is of any other type.
\<close>

theorem tag_accessor:
  "(type (h (g self)) = ''tag'' \<longrightarrow> tag g h self = Inr (Some (g self))) \<and>
   (type (h (g self)) \<noteq> ''tag'' \<longrightarrow> tag g h self = Inr None)"
  by (simp add: tag_def property_get_def TagReference_object_def)

theorem tag_accessor_witness:
  "type (tag_tag_commit 0) = ''tag'' \<and>
   tag (\<lambda>r. 0) tag_tag_commit \<lparr>path = ''refs/tags/v1''\<rparr> = Inr (Some 0) \<and>
   type (tag_tag_commit 2) \<noteq> ''tag'' \<and>
   tag (\<lambda>r. 2) tag_tag_commit \<lparr>path = ''refs/tags/v1''\<rparr> = Inr None"
  using tag_accessor[of tag_tag_commit "\<lambda>r. 0" "\<lparr>path = ''refs/tags/v1''\<rparr>"]
        tag_accessor[of tag_tag_commit "\<lambda>r. 2" "\<lparr>path = ''refs/tags/v1''\<rparr>"]
  by (simp add: tag_tag_commit_def)

text \<open>
  C10. On a tag reference, reading \<open>object\<close> is the getter of the base class; assigning
  to it raises \<open>AttributeError\<close> and leaves the reference, and so the object it points
  to, as it was.
\<close>

theorem object_is_read_only:
  "property_get (TagReference_object g) ''object'' self = Inr (g self) \<and>
   property_set (TagReference_object g) ''object'' self v
     = (Inl (AttributeError ''object''), self) \<and>
   g (snd (property_set (TagReference_object g) ''object'' self v)) = g self"
  by (simp add: property_get_def property_set_def TagReference_object_def)

subsection \<open>\<open>create\<close> and \<open>delete\<close>\<close>

text \<open>
  C7, the code at a failing input. The tag is created locally, then the push fails with
  exit status 128, which is not the benign status 1. \<open>create\<close> does not raise: it
  returns \<open>False\<close>, exactly what it returns when the push fails with status 1. The test
  \<open>err.status == 1\<close> of the source guards only a \<open>pass\<close>.
\<close>

theorem create_push_failure_returns_False:
  "create (failing_push 128) ''v1.0'' True ''HEAD'' None False [] []
     = (Inr PyFalse, [(''tag'', [''v1.0'', ''HEAD''], []), (''push'', [''origin'', ''v1.0''], [])])
   \<and> create (failing_push 128) ''v1.0'' True ''HEAD'' None False [] []
     = create (failing_push 1) ''v1.0'' True ''HEAD'' None False [] []"
  by (simp add: create_def git_def failing_push_def)

lemma delete_push_all:
  "pushes_succeed b kw log ts \<Longrightarrow>
   delete_push b kw ts log = (Inr PyNone, log @ map (push_call kw) ts)"
proof (induction ts arbitrary: log)
  case Nil
  then show ?case by simp
next
  case (Cons t ts)
  then obtain out where o: "b log (push_call kw t) = Inr out"
    and r: "pushes_succeed b kw (log @ [push_call kw t]) ts"
    by (auto split: sum.splits)
  from Cons.IH[OF r] o show ?case
    by (simp add: git_def push_call_def)
qed

lemma delete_push_stops:
  "pushes_succeed b kw log pre \<Longrightarrow>
   b (log @ map (push_call kw) pre) (push_call kw t) = Inl (GitCommandError status) \<Longrightarrow>
   delete_push b kw (pre @ t # post) log = (Inr PyFalse, log @ map (push_call kw) pre @ [push_call kw t])"
proof (induction pre arbitrary: log)
  case Nil
  then show ?case by (simp add: git_def push_call_def)
next
  case (Cons p pre)
  then obtain out where o: "b log (push_call kw p) = Inr out"
    and r: "pushes_succeed b kw (log @ [push_call kw p]) pre"
    by (auto split: sum.splits)
  from Cons.prems(2) have f: "b ((log @ [push_call kw p]) @ map (push_call kw) pre) (push_call kw t) = Inl (GitCommandError status)"
    by simp
  from Cons.IH[OF r f] o show ?case
    by (simp add: git_def push_call_def)
qed

text \<open>
  C9. With push enabled, \<open>delete\<close> first makes one \<open>tag -d\<close> call with all the names.
  Then it pushes the deletions in order: at the first push that raises a
  \<open>GitCommandError\<close>, of whatever status, it returns \<open>False\<close> and has made no call
  for the tags after it; when every push succeeds it returns \<open>None\<close> after one push
  per tag. The second component is the list of backend calls made.
\<close>

theorem delete_with_push:
  assumes "b log (''tag'', ''-d'' # tags, []) = Inr out"
      and "log1 = log @ [(''tag'', ''-d'' # tags, [])]"
      and "kw = AList.update ''d'' (KBool True) kwargs"
  shows "(tags = pre @ t # post \<and> pushes_succeed b kw log1 pre \<and>
          b (log1 @ map (push_call kw) pre) (push_call kw t) = Inl (GitCommandError status)
          \<longrightarrow> delete b True tags kwargs log
                = (Inr PyFalse, log1 @ map (push_call kw) pre @ [push_call kw t]))
       \<and> (pushes_succeed b kw log1 tags
          \<longrightarrow> delete b True tags kwargs log = (Inr PyNone, log1 @ map (push_call kw) tags))"
proof -
  have d: "delete b True tags kwargs log = delete_push b kw tags log1"
    using assms by (simp add: delete_def git_def)
  have stops: "delete b True tags kwargs log
                 = (Inr PyFalse, log1 @ map (push_call kw) pre @ [push_call kw t])"
    if "tags = pre @ t # post" and "pushes_succeed b kw log1 pre"
      and "b (log1 @ map (push_call kw) pre) (push_call kw t) = Inl (GitCommandError status)"
    using delete_push_stops[OF that(2) that(3), of post] d that(1) by simp
  have all: "delete b True tags kwargs log = (Inr PyNone, log1 @ map (push_call kw) tags)"
    if "pushes_succeed b kw log1 tags"
    using delete_push_all[OF that] d by simp
  from stops all show ?thesis by blast
qed

theorem delete_with_push_witness:
  "delete (failing_push_of ''b'' 1) True [''a'', ''b'', ''c''] [] []
     = (Inr PyFalse, [(''tag'', [''-d'', ''a'', ''b'', ''c''], []),
                      (''push'', [''origin'', ''a''], [(''d'', KBool True)]),
                      (''push'', [''origin'', ''b''], [(''d'', KBool True)])])
   \<and> delete (failing_push_of ''b'' 128) True [''a'', ''b'', ''c''] [] []
     = (Inr PyFalse, [(''tag'', [''-d'', ''a'', ''b'', ''c''], []),
                      (''push'', [''origin'', ''a''], [(''d'', KBool True)]),
                      (''push'', [''origin'', ''b''], [(''d'', KBool True)])])
   \<and> delete (failing_push_of ''z'' 1) True [''a'', ''b'', ''c''] [] []
     = (Inr PyNone, [(''tag'', [''-d'', ''a'', ''b'', ''c''], []),
                      (''push'', [''origin'', ''a''], [(''d'', KBool True)]),
                      (''push'', [''origin'', ''b''], [(''d'', KBool True)]),
                      (''push'', [''origin'', ''c''], [(''d'', KBool True)])])"
  using delete_with_push[of "failing_push_of ''b'' 1" "[]" "[''a'', ''b'', ''c'']" "[]"
          "[(''tag'', [''-d'', ''a'', ''b'', ''c''], [])]" "[(''d'', KBool True)]" "[]"
          "[''a'']" "''b''" "[''c'']" 1]
        delete_with_push[of "failing_push_of ''b'' 128" "[]" "[''a'', ''b'', ''c'']" "[]"
          "[(''tag'', [''-d'', ''a'', ''b'', ''c''], [])]" "[(''d'', KBool True)]" "[]"
          "[''a'']" "''b''" "[''c'']" 128]
        delete_with_push[of "failing_push_of ''z'' 1" "[]" "[''a'', ''b'', ''c'']" "[]"
          "[(''tag'', [''-d'', ''a'', ''b'', ''c''], [])]" "[(''d'', KBool True)]" "[]"
          "[''a'']" "''b''" "[''c'']" 1]
  by (simp add: failing_push_of_def push_call_def)

section \<open>Properties of lib/git/diff.py\<close>

subsection \<open>Facts about the matcher\<close>

lemma rest_advance [simp]: "rest (advance n st) = drop n (rest st)"
  by (simp add: advance_def)

lemma groups_advance [simp]: "groups (advance n st) = groups st"
  by (simp add: advance_def)

lemma matches_length_le:
  "st' \<in> set (matches r st) \<Longrightarrow> length (rest st') \<le> length (rest st)"
proof (induction r arbitrary: st st')
  case (Cat r1 r2)
  then obtain m where "m \<in> set (matches r1 st)" "st' \<in> set (matches r2 m)" by auto
  with Cat.IH[of m st] Cat.IH(2)[of st' m] show ?case by simp
qed (auto split: if_splits list.splits)

lemma matches_length_less:
  "consuming r \<Longrightarrow> st' \<in> set (matches r st) \<Longrightarrow> length (rest st') < length (rest st)"
proof (induction r arbitrary: st st')
  case (Lit l)
  then show ?case by (auto split: if_splits simp: prefix_def)
next
  case (OneOrMore c)
  then obtain n where "1 \<le> n" "n \<le> length (takeWhile (in_cls c) (rest st))" "st' = advance n st"
    by auto
  moreover have "length (takeWhile (in_cls c) (rest st)) \<le> length (rest st)"
    by (rule length_takeWhile_le)
  ultimately show ?case by simp
next
  case (Cat r1 r2)
  then obtain m where m: "m \<in> set (matches r1 st)" "st' \<in> set (matches r2 m)" by auto
  from Cat.prems(1) consider "consuming r1" | "consuming r2" by auto
  then show ?case
  proof cases
    case 1
    with Cat.IH(1)[of m st] m matches_length_le[of st' r2 m] show ?thesis by simp
  next
    case 2
    with Cat.IH(2)[of st' m] m matches_length_le[of m r1 st] show ?thesis by simp
  qed
qed auto

lemma matches_groups_nonempty:
  "groups_consume r \<Longrightarrow> st' \<in> set (matches r st) \<Longrightarrow>
   (\<forall>n v. groups st n = Some v \<longrightarrow> v \<noteq> []) \<Longrightarrow> groups st' n = Some v \<Longrightarrow> v \<noteq> []"
proof (induction r arbitrary: st st' n v)
  case (Cat r1 r2)
  then obtain m where m: "m \<in> set (matches r1 st)" "st' \<in> set (matches r2 m)" by auto
  from Cat.prems have g: "groups_consume r1" "groups_consume r2" by auto
  have "\<forall>n v. groups m n = Some v \<longrightarrow> v \<noteq> []"
    using Cat.IH(1)[OF g(1) m(1) Cat.prems(3)] by blast
  from Cat.IH(2)[OF g(2) m(2) this Cat.prems(4)] show ?case .
next
  case (Group name r)
  then obtain m where m: "m \<in> set (matches r st)"
    and st': "st' = m\<lparr>groups := (groups m)(name \<mapsto> take (length (rest st) - length (rest m)) (rest st))\<rparr>"
    by auto
  from Group.prems have g: "consuming r" "groups_consume r" by auto
  show ?case
  proof (cases "n = name")
    case True
    from matches_length_less[OF g(1) m] Group.prems(4) st' True show ?thesis by auto
  next
    case False
    with Group.prems(4) st' have "groups m n = Some v" by simp
    from Group.IH[OF g(2) m Group.prems(3) this] show ?thesis .
  qed
next
  case (Alt r1 r2)
  from Alt.prems(2) consider "st' \<in> set (matches r1 st)" | "st' \<in> set (matches r2 st)" by auto
  then show ?case
  proof cases
    case 1
    from Alt.prems(1) have "groups_consume r1" by simp
    from Alt.IH(1)[OF this 1 Alt.prems(3) Alt.prems(4)] show ?thesis .
  next
    case 2
    from Alt.prems(1) have "groups_consume r2" by simp
    from Alt.IH(2)[OF this 2 Alt.prems(3) Alt.prems(4)] show ?thesis .
  qed
next
  case (Opt r)
  from Opt.prems(2) consider "st' \<in> set (matches r st)" | "st' = st" by auto
  then show ?case
  proof cases
    case 1
    from Opt.prems(1) have "groups_consume r" by simp
    from Opt.IH[OF this 1 Opt.prems(3) Opt.prems(4)] show ?thesis .
  next
    case 2
    with Opt.prems(3) Opt.prems(4) show ?thesis by blast
  qed
next
  case (Lit l)
  then have "groups st' = groups st" by (auto split: if_splits)
  with Lit.prems(3) Lit.prems(4) show ?case by metis
next
  case (OneOrMore c)
  then have "groups st' = groups st" by auto
  with OneOrMore.prems(3) OneOrMore.prems(4) show ?case by metis
next
  case Bol
  then have "st' = st" by (auto split: if_splits)
  with Bol.prems(3) Bol.prems(4) show ?case by blast
next
  case Eol
  then have "st' = st" by (auto split: if_splits list.splits)
  with Eol.prems(3) Eol.prems(4) show ?case by blast
qed

lemma groups_consume_header: "groups_consume diff_header_re"
  by (simp add: diff_header_re_def end_of_line_def)

lemma diff_header_in_matches:
  "diff_header s = Some h \<Longrightarrow> h \<in> set (matches diff_header_re \<lparr>bol = True, rest = s, groups = Map.empty\<rparr>)"
  by (auto simp: diff_header_def split: list.splits)

lemma diff_header_group_nonempty:
  "diff_header s = Some h \<Longrightarrow> groups h n = Some v \<Longrightarrow> v \<noteq> []"
  using matches_groups_nonempty[OF groups_consume_header diff_header_in_matches, of s h n v]
  by simp

lemma truthy_group:
  "diff_header s = Some h \<Longrightarrow> truthy (groups h n) = (groups h n \<noteq> None)"
  using diff_header_group_nonempty[of s h n]
  by (cases "groups h n") (auto simp: truthy_def)

lemma py_or_group:
  "diff_header s = Some h \<Longrightarrow>
   py_or (groups h n) y = (case groups h n of None \<Rightarrow> y | Some v \<Rightarrow> Some v)"
  using truthy_group[of s h n] by (auto simp: py_or_def split: option.splits)

subsection \<open>Facts about \<open>split\<close> and the segments\<close>

lemma pieces_nonempty: "pieces sep s \<noteq> []"
  by (induction sep s rule: pieces.induct) (auto split: list.splits)

lemma pieces_join:
  "pieces sep s = p # ps \<Longrightarrow> s = p @ concat (map ((@) sep) ps)"
proof (induction sep s arbitrary: p ps rule: pieces.induct)
  case (1 sep)
  then show ?case by simp
next
  case (2 sep c cs)
  show ?case
  proof (cases "sep \<noteq> [] \<and> prefix sep (c # cs)")
    case True
    then obtain r where r: "c # cs = sep @ r" by (auto simp: prefix_def)
    then have d: "drop (length sep) (c # cs) = r" by simp
    from True "2.prems" d have p: "p = []" and ps: "ps = pieces sep r" by auto
    obtain q qs where q: "pieces sep r = q # qs"
      using pieces_nonempty[of sep r] by (cases "pieces sep r") auto
    from "2.IH"(1)[OF True, of q qs] d q have "r = q @ concat (map ((@) sep) qs)" by simp
    with p ps q r show ?thesis by simp
  next
    case False
    obtain q qs where q: "pieces sep cs = q # qs"
      using pieces_nonempty[of sep cs] by (cases "pieces sep cs") auto
    from "2.IH"(2)[OF False q] have "cs = q @ concat (map ((@) sep) qs)" .
    moreover from False "2.prems" q have "p = c # q" "ps = qs" by auto
    ultimately show ?thesis by simp
  qed
qed

lemma pieces_no_sep:
  "sep \<noteq> [] \<Longrightarrow> p \<in> set (pieces sep s) \<Longrightarrow> \<not> sublist sep p"
proof (induction sep s arbitrary: p rule: pieces.induct)
  case (1 sep)
  then show ?case by simp
next
  case (2 sep c cs)
  show ?case
  proof (cases "sep \<noteq> [] \<and> prefix sep (c # cs)")
    case True
    with "2.prems" have "p = [] \<or> p \<in> set (pieces sep (drop (length sep) (c # cs)))" by auto
    with "2.IH"(1)[OF True "2.prems"(1)] "2.prems"(1) show ?thesis by auto
  next
    case False
    obtain q qs where q: "pieces sep cs = q # qs"
      using pieces_nonempty[of sep cs] by (cases "pieces sep cs") auto
    from False "2.prems" q have "p = c # q \<or> p \<in> set qs" by auto
    then show ?thesis
    proof
      assume p: "p = c # q"
      from "2.IH"(2)[OF False "2.prems"(1), of q] q have nq: "\<not> sublist sep q" by simp
      have "\<not> prefix sep (c # q)"
      proof
        assume "prefix sep (c # q)"
        moreover from pieces_join[OF q] have "prefix (c # q) (c # cs)" by (simp add: prefix_def)
        ultimately have "prefix sep (c # cs)" by (rule prefix_order.trans)
        with False "2.prems"(1) show False by simp
      qed
      with nq p show ?thesis by (simp add: sublist_Cons_right)
    next
      assume "p \<in> set qs"
      with "2.IH"(2)[OF False "2.prems"(1), of p] q show ?thesis by simp
    qed
  qed
qed

lemma marker_count_no_prefix:
  "\<not> prefix ''diff --git'' s \<Longrightarrow> marker_count True s = marker_count False s"
  by (cases s) auto

lemma marker_count_after_marker:
  "marker_count True (''diff --git'' @ r) = Suc (marker_count False r)"
  by (cases r) simp_all

lemma prefix_marker:
  "prefix marker (c # cs) \<longleftrightarrow> c = CHR 0x0A \<and> prefix ''diff --git'' cs"
  by (auto simp: marker_def)

lemma length_pieces_marker:
  "length (pieces marker s) = Suc (marker_count False s)"
proof (induction s rule: length_induct)
  case (1 s)
  show ?case
  proof (cases s)
    case Nil
    then show ?thesis by simp
  next
    case (Cons c cs)
    show ?thesis
    proof (cases "prefix marker (c # cs)")
      case True
      then obtain r where r: "c # cs = marker @ r" by (auto simp: prefix_def)
      then have cs: "c = CHR 0x0A" "cs = ''diff --git'' @ r" by (simp_all add: marker_def)
      have d: "drop (length marker) (c # cs) = r" using r by simp
      have "length r < length s" using Cons r by (simp add: marker_def)
      with 1 have "length (pieces marker r) = Suc (marker_count False r)" by blast
      moreover have "marker \<noteq> []" by (simp add: marker_def)
      ultimately have "length (pieces marker (c # cs)) = Suc (Suc (marker_count False r))"
        using True d by simp
      moreover have "marker_count False (c # cs) = Suc (marker_count False r)"
        using cs marker_count_after_marker[of r] by simp
      ultimately show ?thesis using Cons by simp
    next
      case False
      obtain q qs where q: "pieces marker cs = q # qs"
        using pieces_nonempty[of marker cs] by (cases "pieces marker cs") auto
      have "length cs < length s" using Cons by simp
      with 1 have "length (pieces marker cs) = Suc (marker_count False cs)" by blast
      with False q have l: "length (pieces marker (c # cs)) = Suc (marker_count False cs)" by simp
      have "marker_count False (c # cs) = marker_count False cs"
      proof (cases "c = CHR 0x0A")
        case True
        with False have "\<not> prefix ''diff --git'' cs" by (simp add: prefix_marker)
        from marker_count_no_prefix[OF this] True show ?thesis by simp
      next
        case False
        then show ?thesis by simp
      qed
      with l Cons show ?thesis by simp
    qed
  qed
qed

lemma length_segments: "length (segments text) = marker_count True text"
  using length_pieces_marker[of "CHR 0x0A # text"] by (simp add: segments_def)

lemma segments_join:
  "\<exists>before. CHR 0x0A # text = before @ concat (map ((@) marker) (segments text))
      \<and> \<not> sublist marker before"
proof -
  obtain p ps where p: "pieces marker (CHR 0x0A # text) = p # ps"
    using pieces_nonempty[of marker "CHR 0x0A # text"] by (cases "pieces marker (CHR 0x0A # text)") auto
  have m: "marker \<noteq> []" by (simp add: marker_def)
  from pieces_no_sep[OF m, of p "CHR 0x0A # text"] p have "\<not> sublist marker p" by simp
  with pieces_join[OF p] p show ?thesis by (auto simp: segments_def)
qed

lemma segments_no_marker: "seg \<in> set (segments text) \<Longrightarrow> \<not> sublist marker seg"
proof -
  assume "seg \<in> set (segments text)"
  then have "seg \<in> set (pieces marker (CHR 0x0A # text))"
    unfolding segments_def using pieces_nonempty[of marker "CHR 0x0A # text"]
    by (rule_tac list.set_sel(2))
  moreover have "marker \<noteq> []" by (simp add: marker_def)
  ultimately show ?thesis using pieces_no_sep by blast
qed

lemma list_from_string_segments:
  "list_from_string diffs text = diff_loop (segments text) diffs"
  by (simp add: list_from_string_def split_def segments_def marker_def)

subsection \<open>Facts about the loop\<close>

lemma diff_loop_fail:
  "seg \<in> set segs \<Longrightarrow> diff_header seg = None \<Longrightarrow>
   diff_loop segs diffs = Inl (AttributeError ''groups'')"
  by (induction segs arbitrary: diffs) (auto split: option.splits)

lemma diff_loop_ok:
  "map diff_header segs = map Some hs \<Longrightarrow>
   diff_loop segs diffs = Inr (diffs @ map make_diff hs)"
proof (induction segs arbitrary: diffs hs)
  case Nil
  then show ?case by simp
next
  case (Cons s segs)
  then obtain h hs' where hs: "hs = h # hs'" "diff_header s = Some h"
    "map diff_header segs = map Some hs'" by (cases hs) auto
  from Cons.IH[OF hs(3), of "diffs @ [make_diff h]"] hs show ?case by simp
qed

lemma all_headers:
  "(\<forall>seg\<in>set segs. diff_header seg \<noteq> None) \<Longrightarrow> \<exists>hs. map diff_header segs = map Some hs"
proof (induction segs)
  case Nil
  then show ?case by simp
next
  case (Cons s segs)
  then obtain hs h where "map diff_header segs = map Some hs" "diff_header s = Some h" by auto
  then have "map diff_header (s # segs) = map Some (h # hs)" by simp
  then show ?case by blast
qed


subsection \<open>A header matches exactly when the segment starts with a path-pair line\<close>

lemma never_fails_matches: "never_fails r \<Longrightarrow> matches r st \<noteq> []"
proof (induction r arbitrary: st)
  case (Cat r1 r2)
  then obtain m ms where m: "matches r1 st = m # ms"
    by (cases "matches r1 st") auto
  from Cat have "matches r2 m \<noteq> []" by simp
  with m show ?case by simp
qed simp_all

lemma matches_Lit_rest:
  "m \<in> set (matches (Lit l) st) \<Longrightarrow> rest st = l @ rest m"
  by (auto simp: prefix_def split: if_splits)

lemma matches_token_rest:
  assumes "m \<in> set (matches (Group name (OneOrMore c)) st)"
  shows "\<exists>p. p \<noteq> [] \<and> list_all (in_cls c) p \<and> rest st = p @ rest m"
proof -
  from assms obtain k where k: "1 \<le> k" "k \<le> length (takeWhile (in_cls c) (rest st))"
    and m: "rest m = drop k (rest st)" by auto
  let ?p = "take k (rest st)"
  have le: "length (takeWhile (in_cls c) (rest st)) \<le> length (rest st)"
    by (rule length_takeWhile_le)
  have "?p = take k (takeWhile (in_cls c) (rest st))"
    using k(2) by (metis append_eq_conv_conj takeWhile_dropWhile_id take_append take_all_iff
        diff_is_0_eq' take0 append_Nil2)
  then have "set ?p \<subseteq> set (takeWhile (in_cls c) (rest st))"
    by (metis set_take_subset)
  then have "list_all (in_cls c) ?p"
    by (auto simp: list_all_iff dest: set_takeWhileD)
  moreover have "?p \<noteq> []" using k le by auto
  moreover have "rest st = ?p @ rest m" using m by simp
  ultimately show ?thesis by blast
qed

lemma matches_Group_intro:
  assumes "m \<in> set (matches r st)"
  shows "\<exists>m' \<in> set (matches (Group name r) st). rest m' = rest m"
proof -
  let ?f = "\<lambda>st'. st'\<lparr>groups := (groups st')(name \<mapsto>
                      take (length (rest st) - length (rest st')) (rest st))\<rparr>"
  from assms have "?f m \<in> ?f ` set (matches r st)" by (rule imageI)
  then have "?f m \<in> set (matches (Group name r) st)" by simp
  moreover have "rest (?f m) = rest m" by simp
  ultimately show ?thesis by blast
qed

lemma matches_token_intro:
  assumes "rest st = p @ r" and "p \<noteq> []" and "list_all (in_cls c) p"
  shows "\<exists>m \<in> set (matches (Group name (OneOrMore c)) st). rest m = r"
proof -
  have "takeWhile (in_cls c) (rest st) = p @ takeWhile (in_cls c) r"
    using assms(1,3) by (simp add: takeWhile_append2 list_all_iff)
  then have "length p \<le> length (takeWhile (in_cls c) (rest st))" by simp
  moreover have "1 \<le> length p" using assms(2) by (cases p) auto
  ultimately have "length p \<in> set (rev [1..<Suc (length (takeWhile (in_cls c) (rest st)))])"
    by (auto simp: le_eq_less_or_eq)
  then have a: "advance (length p) st \<in> set (matches (OneOrMore c) st)"
    unfolding matches.simps set_map by (rule imageI)
  have b: "rest (advance (length p) st) = r" using assms(1) by simp
  from matches_Group_intro[OF a, of name] obtain m' where
    m': "m' \<in> set (matches (Group name (OneOrMore c)) st)"
        "rest m' = rest (advance (length p) st)" by blast
  from m'(2) b have "rest m' = r" by (rule trans)
  with m'(1) show ?thesis by blast
qed

lemma matches_Cat_nonempty:
  "m \<in> set (matches r1 st) \<Longrightarrow> matches r2 m \<noteq> [] \<Longrightarrow> matches (Cat r1 r2) st \<noteq> []"
  by auto

lemma matches_Cat_elim:
  "h \<in> set (matches (Cat r1 r2) st) \<Longrightarrow> \<exists>m \<in> set (matches r1 st). h \<in> set (matches r2 m)"
  by auto

lemma matches_Lit_intro:
  "rest st = l @ r \<Longrightarrow> \<exists>m \<in> set (matches (Lit l) st). rest m = r"
  by simp

lemma header_shape:
  "\<exists>tail. never_fails tail \<and>
     diff_header_re =
       Cat (Lit '' a/'') (Cat (Group ''a_path'' (OneOrMore NonSpace))
         (Cat (Lit '' b/'') (Cat (Group ''b_path'' (OneOrMore NonSpace))
           (Cat (Lit [CHR 0x0A]) tail))))"
  by (simp add: diff_header_re_def)

lemma diff_header_path_pair:
  "diff_header seg \<noteq> None \<longleftrightarrow> path_pair_line seg"
proof -
  obtain tail where nf: "never_fails tail" and shape: "diff_header_re =
       Cat (Lit '' a/'') (Cat (Group ''a_path'' (OneOrMore NonSpace))
         (Cat (Lit '' b/'') (Cat (Group ''b_path'' (OneOrMore NonSpace))
           (Cat (Lit [CHR 0x0A]) tail))))"
    using header_shape by blast
  let ?st = "\<lparr>bol = True, rest = seg, groups = Map.empty\<rparr>"
  have ne: "diff_header seg \<noteq> None \<longleftrightarrow> matches diff_header_re ?st \<noteq> []"
    by (simp add: diff_header_def split: list.splits)
  show ?thesis
  proof
    assume "diff_header seg \<noteq> None"
    with ne obtain h where "h \<in> set (matches diff_header_re ?st)"
      by (cases "matches diff_header_re ?st") auto
    then have h: "h \<in> set (matches (Cat (Lit '' a/'') (Cat (Group ''a_path'' (OneOrMore NonSpace))
         (Cat (Lit '' b/'') (Cat (Group ''b_path'' (OneOrMore NonSpace))
           (Cat (Lit [CHR 0x0A]) tail))))) ?st)"
      unfolding shape .
    from matches_Cat_elim[OF h] obtain m1 where
      m1: "m1 \<in> set (matches (Lit '' a/'') ?st)" and
      h1: "h \<in> set (matches (Cat (Group ''a_path'' (OneOrMore NonSpace))
         (Cat (Lit '' b/'') (Cat (Group ''b_path'' (OneOrMore NonSpace))
           (Cat (Lit [CHR 0x0A]) tail)))) m1)" by blast
    from matches_Cat_elim[OF h1] obtain m2 where
      m2: "m2 \<in> set (matches (Group ''a_path'' (OneOrMore NonSpace)) m1)" and
      h2: "h \<in> set (matches (Cat (Lit '' b/'') (Cat (Group ''b_path'' (OneOrMore NonSpace))
           (Cat (Lit [CHR 0x0A]) tail))) m2)" by blast
    from matches_Cat_elim[OF h2] obtain m3 where
      m3: "m3 \<in> set (matches (Lit '' b/'') m2)" and
      h3: "h \<in> set (matches (Cat (Group ''b_path'' (OneOrMore NonSpace))
           (Cat (Lit [CHR 0x0A]) tail)) m3)" by blast
    from matches_Cat_elim[OF h3] obtain m4 where
      m4: "m4 \<in> set (matches (Group ''b_path'' (OneOrMore NonSpace)) m3)" and
      h4: "h \<in> set (matches (Cat (Lit [CHR 0x0A]) tail) m4)" by blast
    from matches_Cat_elim[OF h4] obtain m5 where
      m5: "m5 \<in> set (matches (Lit [CHR 0x0A]) m4)" by blast
    from matches_token_rest[OF m2] obtain p where
      p: "p \<noteq> []" "list_all (in_cls NonSpace) p" "rest m1 = p @ rest m2" by blast
    from matches_token_rest[OF m4] obtain q where
      q: "q \<noteq> []" "list_all (in_cls NonSpace) q" "rest m3 = q @ rest m4" by blast
    from matches_Lit_rest[OF m1] matches_Lit_rest[OF m3] matches_Lit_rest[OF m5] p(3) q(3)
    have "seg = '' a/'' @ p @ '' b/'' @ q @ [CHR 0x0A] @ rest m5" by simp
    with p q show "path_pair_line seg" unfolding path_pair_line_def by blast
  next
    assume "path_pair_line seg"
    then obtain p q r where
      seg: "seg = '' a/'' @ p @ '' b/'' @ q @ [CHR 0x0A] @ r" and
      p: "p \<noteq> []" "list_all (in_cls NonSpace) p" and
      q: "q \<noteq> []" "list_all (in_cls NonSpace) q"
      unfolding path_pair_line_def by blast
    from seg have "rest ?st = '' a/'' @ (p @ '' b/'' @ q @ [CHR 0x0A] @ r)" by simp
    from matches_Lit_intro[OF this] obtain m1 where
      m1: "m1 \<in> set (matches (Lit '' a/'') ?st)" "rest m1 = p @ ('' b/'' @ q @ [CHR 0x0A] @ r)"
      by blast
    from matches_token_intro[OF m1(2) p, of "''a_path''"] obtain m2 where
      m2: "m2 \<in> set (matches (Group ''a_path'' (OneOrMore NonSpace)) m1)"
          "rest m2 = '' b/'' @ (q @ [CHR 0x0A] @ r)" by blast
    from matches_Lit_intro[OF m2(2)] obtain m3 where
      m3: "m3 \<in> set (matches (Lit '' b/'') m2)" "rest m3 = q @ ([CHR 0x0A] @ r)" by blast
    from matches_token_intro[OF m3(2) q, of "''b_path''"] obtain m4 where
      m4: "m4 \<in> set (matches (Group ''b_path'' (OneOrMore NonSpace)) m3)"
          "rest m4 = [CHR 0x0A] @ r" by blast
    from matches_Lit_intro[OF m4(2)] obtain m5 where
      m5: "m5 \<in> set (matches (Lit [CHR 0x0A]) m4)" by blast
    have "matches tail m5 \<noteq> []" using nf by (rule never_fails_matches)
    from matches_Cat_nonempty[OF m5 this] have "matches (Cat (Lit [CHR 0x0A]) tail) m4 \<noteq> []" .
    from matches_Cat_nonempty[OF m4(1) this] have
      "matches (Cat (Group ''b_path'' (OneOrMore NonSpace)) (Cat (Lit [CHR 0x0A]) tail)) m3 \<noteq> []" .
    from matches_Cat_nonempty[OF m3(1) this] have
      "matches (Cat (Lit '' b/'') (Cat (Group ''b_path'' (OneOrMore NonSpace))
           (Cat (Lit [CHR 0x0A]) tail))) m2 \<noteq> []" .
    from matches_Cat_nonempty[OF m2(1) this] have
      "matches (Cat (Group ''a_path'' (OneOrMore NonSpace))
         (Cat (Lit '' b/'') (Cat (Group ''b_path'' (OneOrMore NonSpace))
           (Cat (Lit [CHR 0x0A]) tail)))) m1 \<noteq> []" .
    from matches_Cat_nonempty[OF m1(1) this] have "matches diff_header_re ?st \<noteq> []"
      unfolding shape .
    with ne show "diff_header seg \<noteq> None" by simp
  qed
qed

subsection \<open>The records of a parse\<close>







lemma parse_bad_texts:
  "list_from_string [] bad_first_text = Inl (AttributeError ''groups'') \<and>
   list_from_string [] bad_second_text = Inl (AttributeError ''groups'')"
  by code_simp

lemma segments_bad_first_text:
  "segments bad_first_text = ['' junk'' @ [CHR 0x0A]]"
  by code_simp

lemma segments_bad_second_text:
  "segments bad_second_text =
     ['' a/x b/x'' @ [CHR 0x0A] @ ''index abc..def'', '' junk'' @ [CHR 0x0A]]"
  by code_simp

lemma segments_two_segments_text:
  "segments two_segments_text =
     ['' a/x b/y'' @ [CHR 0x0A] @ ''index 1..2'', '' a/p b/q'' @ [CHR 0x0A] @ ''body'']"
  by code_simp

lemma no_path_pair_junk: "\<not> path_pair_line ('' junk'' @ [CHR 0x0A])"
  unfolding path_pair_line_def by simp

lemma path_pair_examples:
  "path_pair_line ('' a/x b/y'' @ [CHR 0x0A] @ ''index 1..2'')"
  "path_pair_line ('' a/p b/q'' @ [CHR 0x0A] @ ''body'')"
  "path_pair_line ('' a/x b/x'' @ [CHR 0x0A] @ ''index abc..def'')"
  unfolding path_pair_line_def
  by (rule exI[of _ "''x''"], rule exI[of _ "''y''"], rule exI[of _ "''index 1..2''"], simp,
      rule exI[of _ "''p''"], rule exI[of _ "''q''"], rule exI[of _ "''body''"], simp,
      rule exI[of _ "''x''"], rule exI[of _ "''x''"], rule exI[of _ "''index abc..def''"], simp)






text \<open>
  C3, the code at a failing input. The text is two header lines, each a marker followed
  by a path pair, the second right after the first: two occurrences of the marker at the
  start of a line, and by the grammar of the header every line after the path pair is
  optional. \<open>split\<close> takes the newline that ends the first header line as the start of
  the next separator, so the first segment is \<open> a/x b/y\<close> without a newline; the first
  line of the pattern ends in \<open>\n\<close> where every later line ends in \<open>(?:\n|$)\<close>, the
  match fails and the parse raises instead of yielding two records.
\<close>

theorem two_header_lines_fail:
  "marker_count True two_headers_text = 2 \<and>
   segments two_headers_text = ['' a/x b/y'', '' a/p b/q'' @ [CHR 0x0A]] \<and>
   list_from_string [] two_headers_text = Inl (AttributeError ''groups'')"
  by code_simp

text \<open>
  The sibling path: when the line that loses its newline to \<open>split\<close> is one of the later
  lines of the header, the same two files parse to two records.
\<close>

lemma header_then_mode_parses:
  "marker_count True header_then_mode_text = 2 \<and>
   segments header_then_mode_text =
     ['' a/x b/y'' @ [CHR 0x0A] @ ''new file mode 100644'', '' a/p b/q'' @ [CHR 0x0A]] \<and>
   list_from_string [] header_then_mode_text =
     Inr [\<lparr>a_path = Some ''x'', b_path = Some ''y'', a_commit = None, b_commit = None,
            a_mode = None, b_mode = Some ''100644'',
            new_file = True, deleted_file = False, diff = []\<rparr>,
          \<lparr>a_path = Some ''p'', b_path = Some ''q'', a_commit = None, b_commit = None,
            a_mode = None, b_mode = None,
            new_file = False, deleted_file = False, diff = []\<rparr>]"
  by code_simp

text \<open>
  Where the code does yield the records: when every segment starts with a path-pair line
  that its newline still ends, the parse returns, and appends to \<open>diffs\<close> exactly as
  many records as the text has occurrences of \<open>diff --git\<close> at the start of a line,
  the i-th record made from the header of the i-th segment. The segments are the
  stretches of text that follow the markers: the text (after the newline put in front of
  it) is what precedes the first marker, followed by each marker and its segment in
  order, and neither that first part nor any segment contains a marker; only the
  segments reach the records.
\<close>

lemma records_follow_segments:
  assumes "\<forall>seg \<in> set (segments text). path_pair_line seg"
  shows "\<exists>hs. map diff_header (segments text) = map Some hs \<and>
           list_from_string diffs text = Inr (diffs @ map make_diff hs) \<and>
           length (map make_diff hs) = marker_count True text \<and>
           (\<exists>before. CHR 0x0A # text = before @ concat (map ((@) marker) (segments text))
                     \<and> \<not> sublist marker before) \<and>
           (\<forall>seg \<in> set (segments text). \<not> sublist marker seg)"
proof -
  from assms have "\<forall>seg \<in> set (segments text). diff_header seg \<noteq> None"
    using diff_header_path_pair by blast
  from all_headers[OF this] obtain hs where
    hs: "map diff_header (segments text) = map Some hs" by blast
  from diff_loop_ok[OF hs, of diffs] have
    res: "list_from_string diffs text = Inr (diffs @ map make_diff hs)"
    by (simp add: list_from_string_segments)
  from hs have "length hs = length (segments text)" by (metis length_map)
  then have len: "length (map make_diff hs) = marker_count True text"
    by (simp add: length_segments)
  have nm: "\<forall>seg \<in> set (segments text). \<not> sublist marker seg"
    using segments_no_marker by blast
  from hs res len segments_join [of "text"] nm show ?thesis by blast
qed

lemma records_follow_segments_two_segments:
  "segments two_segments_text =
     ['' a/x b/y'' @ [CHR 0x0A] @ ''index 1..2'', '' a/p b/q'' @ [CHR 0x0A] @ ''body'']
   \<and> path_pair_line ('' a/x b/y'' @ [CHR 0x0A] @ ''index 1..2'')
   \<and> path_pair_line ('' a/p b/q'' @ [CHR 0x0A] @ ''body'')
   \<and> marker_count True two_segments_text = 2
   \<and> (\<exists>hs. list_from_string [] two_segments_text = Inr (map make_diff hs) \<and> length hs = 2)"
proof -
  have a: "\<forall>seg \<in> set (segments two_segments_text). path_pair_line seg"
    using path_pair_examples(1,2) by (simp add: segments_two_segments_text)
  from records_follow_segments[OF a, of "[]"] obtain hs where
    hs: "map diff_header (segments two_segments_text) = map Some hs"
        "list_from_string [] two_segments_text = Inr ([] @ map make_diff hs)"
        "length (map make_diff hs) = marker_count True two_segments_text" by blast
  from hs(1) have "length hs = length (segments two_segments_text)" by (metis length_map)
  then have l: "length hs = 2" by (simp add: segments_two_segments_text)
  with hs(3) have "marker_count True two_segments_text = 2" by simp
  with hs(2) l path_pair_examples(1,2) segments_two_segments_text show ?thesis by auto
qed

text \<open>
  A path may not hold white space, and U+001C is white space to \<open>\S\<close>: the header does
  not match and the parse raises.
\<close>

lemma separator_in_path_fails:
  "list_from_string [] separator_in_path_text = Inl (AttributeError ''groups'')"
  by code_simp

text \<open>
  C4, as the code has it. When some segment of the text does not start with a path-pair
  line, the whole parse raises: no list is returned, so no segment is skipped and no
  record, partial or not, comes back. The exception is the \<open>AttributeError\<close> of calling
  \<open>groups\<close> on the \<open>None\<close> that the failed match returned; it says nothing about
  which segment failed.
\<close>

theorem malformed_segment_aborts:
  assumes "seg \<in> set (segments text)" and "\<not> path_pair_line seg"
  shows "list_from_string diffs text = Inl (AttributeError ''groups'')"
proof -
  from assms(2) have "diff_header seg = None" using diff_header_path_pair[of seg] by simp
  from diff_loop_fail[OF assms(1) this] show ?thesis by (simp add: list_from_string_segments)
qed

theorem malformed_segment_aborts_witness:
  "'' junk'' @ [CHR 0x0A] \<in> set (segments bad_first_text)
   \<and> \<not> path_pair_line ('' junk'' @ [CHR 0x0A])
   \<and> list_from_string [] bad_first_text = Inl (AttributeError ''groups'')"
proof -
  have a: "'' junk'' @ [CHR 0x0A] \<in> set (segments bad_first_text)"
    by (simp add: segments_bad_first_text)
  from malformed_segment_aborts[OF a no_path_pair_junk, of "[]"] a no_path_pair_junk
  show ?thesis by blast
qed

text \<open>
  C4 as stated fails: the error is the same value whether the segment without a path
  pair is the first of the text or the second, so it does not identify the position.
\<close>

theorem error_has_no_position:
  "list_from_string [] bad_first_text = Inl (AttributeError ''groups'')
   \<and> list_from_string [] bad_second_text = Inl (AttributeError ''groups'')
   \<and> \<not> path_pair_line (segments bad_first_text ! 0)
   \<and> path_pair_line (segments bad_second_text ! 0)
   \<and> \<not> path_pair_line (segments bad_second_text ! 1)"
  using parse_bad_texts no_path_pair_junk path_pair_examples(3)
  by (simp add: segments_bad_first_text segments_bad_second_text)

end
